theory Spec2Isabelle
  imports Complex_Main
begin

section \<open>Data model\<close>

text \<open>
  The helpers of \<^verbatim>\<open>rl_utils.py\<close>. Python integers are \<^typ>\<open>int\<close>; lists, tuples and
  one-dimensional numpy arrays are HOL lists; floating-point numbers are IEEE values with
  their rounding (section Floating point). An exception is a value of the type below; the
  constructor records which Python exception it is and what raised it.
\<close>

datatype error =
    ValueError_maxlen         \<comment> \<open>deque: maxlen must be non-negative\<close>
  | OverflowError             \<comment> \<open>an integer too large for a C ssize_t, or for a float\<close>
  | ValueError_sample         \<comment> \<open>random.sample: sample larger than population or is negative\<close>
  | ValueError_unpack         \<comment> \<open>not enough values to unpack (expected 5, got 0)\<close>
  | ValueError_inhomogeneous  \<comment> \<open>numpy: the requested array has an inhomogeneous shape\<close>
  | ValueError_broadcast      \<comment> \<open>numpy: operands could not be broadcast together\<close>

text \<open>
  A transition is the tuple \<^verbatim>\<open>(state, action, reward, next_state, done)\<close>; states,
  actions and rewards are whatever the caller stores.
\<close>

type_synonym ('s, 'a, 'r) transition = "'s \<times> 'a \<times> 'r \<times> 's \<times> bool"

text \<open>
  \<^verbatim>\<open>self.buffer = collections.deque(maxlen=capacity)\<close>: the deque is its contents, oldest
  first, together with its bound.
\<close>

record ('s, 'a, 'r) ReplayBuffer =
  buffer :: "('s, 'a, 'r) transition list"
  maxlen :: nat

section \<open>ReplayBuffer\<close>

text \<open>
  \<^verbatim>\<open>__init__\<close>: \<^verbatim>\<open>deque(maxlen=capacity)\<close> first converts the bound to a C
  \<^verbatim>\<open>Py_ssize_t\<close> (64 bits), which raises OverflowError outside \<open>[-2^63, 2^63)\<close>, then
  raises ValueError for a negative bound, and accepts every other integer, zero included.
\<close>

definition ReplayBuffer_init :: "int \<Rightarrow> error + ('s, 'a, 'r) ReplayBuffer" where
  "ReplayBuffer_init capacity =
     (if capacity < - (2 ^ 63) \<or> 2 ^ 63 \<le> capacity then Inl OverflowError
      else if capacity < 0 then Inl ValueError_maxlen
      else Inr \<lparr>buffer = [], maxlen = nat capacity\<rparr>)"

text \<open>
  \<^verbatim>\<open>deque.append\<close> on a bounded deque: the item is put at the right end, and when the
  length then exceeds the bound the leftmost item is discarded.
\<close>

definition deque_append :: "nat \<Rightarrow> 'x list \<Rightarrow> 'x \<Rightarrow> 'x list" where
  "deque_append bound d x = (let d' = d @ [x] in if bound < length d' then tl d' else d')"

definition add ::
  "('s, 'a, 'r) ReplayBuffer \<Rightarrow> 's \<Rightarrow> 'a \<Rightarrow> 'r \<Rightarrow> 's \<Rightarrow> bool \<Rightarrow> ('s, 'a, 'r) ReplayBuffer" where
  "add self state action reward next_state done =
     self\<lparr>buffer := deque_append (maxlen self) (buffer self) (state, action, reward, next_state, done)\<rparr>"

text \<open>\<^verbatim>\<open>size\<close> returns \<^verbatim>\<open>len(self.buffer)\<close> and hands the buffer back as it was.\<close>

definition size_rb :: "('s, 'a, 'r) ReplayBuffer \<Rightarrow> nat \<times> ('s, 'a, 'r) ReplayBuffer" where
  "size_rb self = (length (buffer self), self)"

text \<open>A run of \<^verbatim>\<open>add\<close> calls, one per transition, in order.\<close>

fun add_all ::
  "('s, 'a, 'r) ReplayBuffer \<Rightarrow> ('s, 'a, 'r) transition list \<Rightarrow> ('s, 'a, 'r) ReplayBuffer" where
  "add_all self [] = self"
| "add_all self ((s, a, r, s', d) # ts) = add_all (add self s a r s' d) ts"

section \<open>Floating point\<close>

text \<open>
  An IEEE 754 binary floating-point datum is a finite number, an infinity or a NaN. The
  sign of a zero is not represented: the code modelled here never divides by a computed
  zero, and the comparisons of Python and numpy treat both zeros as equal.
\<close>

datatype ieee = Finite real | PInf | NInf | NaN

text \<open>
  A binary format: \<open>precision\<close> significand bits (the hidden bit included) and the
  exponent range of its normal numbers.
\<close>

record format =
  precision :: nat
  emin :: int
  emax :: int

definition binary32 :: format where
  "binary32 = \<lparr>precision = 24, emin = - 126, emax = 127\<rparr>"

definition binary64 :: format where
  "binary64 = \<lparr>precision = 53, emin = - 1022, emax = 1023\<rparr>"

definition pow2 :: "int \<Rightarrow> real" where
  "pow2 k = (if 0 \<le> k then 2 ^ nat k else inverse (2 ^ nat (- k)))"

text \<open>Rounding a real to the nearest integer, a tie going to the even one.\<close>

definition round_half_even :: "real \<Rightarrow> int" where
  "round_half_even r =
     (let f = \<lfloor>r\<rfloor>; d = r - of_int f
      in if d < 1 / 2 then f
         else if 1 / 2 < d then f + 1
         else if even f then f else f + 1)"

text \<open>
  Rounding an exact result to a format, to nearest with ties to even (the default mode,
  which neither Python nor numpy changes): the exact value is rounded to a multiple of the
  spacing of the format at its magnitude (the spacing of the subnormal numbers below the
  normal range), and a result beyond the largest finite number becomes an infinity.
\<close>

definition round_to :: "format \<Rightarrow> real \<Rightarrow> ieee" where
  "round_to F x =
     (if x = 0 then Finite 0
      else
        (let e = \<lfloor>log 2 \<bar>x\<bar>\<rfloor>;
             j = max e (emin F) - int (precision F) + 1;
             y = of_int (round_half_even (x / pow2 j)) * pow2 j
         in if pow2 (emax F + 1) \<le> \<bar>y\<bar> then (if 0 < x then PInf else NInf)
            else Finite y))"

fun fneg :: "ieee \<Rightarrow> ieee" where
  "fneg (Finite x) = Finite (- x)"
| "fneg PInf = NInf"
| "fneg NInf = PInf"
| "fneg NaN = NaN"

text \<open>The arithmetic operations of a format: the exact result, rounded.\<close>

fun fadd :: "format \<Rightarrow> ieee \<Rightarrow> ieee \<Rightarrow> ieee" where
  "fadd F NaN b = NaN"
| "fadd F a NaN = NaN"
| "fadd F (Finite x) (Finite y) = round_to F (x + y)"
| "fadd F PInf NInf = NaN"
| "fadd F NInf PInf = NaN"
| "fadd F PInf b = PInf"
| "fadd F NInf b = NInf"
| "fadd F a PInf = PInf"
| "fadd F a NInf = NInf"

definition fsub :: "format \<Rightarrow> ieee \<Rightarrow> ieee \<Rightarrow> ieee" where
  "fsub F a b = fadd F a (fneg b)"

fun fmul :: "format \<Rightarrow> ieee \<Rightarrow> ieee \<Rightarrow> ieee" where
  "fmul F NaN b = NaN"
| "fmul F a NaN = NaN"
| "fmul F (Finite x) (Finite y) = round_to F (x * y)"
| "fmul F (Finite x) b = (if x = 0 then NaN else if 0 < x then b else fneg b)"
| "fmul F a (Finite y) = (if y = 0 then NaN else if 0 < y then a else fneg a)"
| "fmul F a b = (if a = b then PInf else NInf)"

text \<open>
  Division; a zero divisor is taken as \<open>+0\<close>, which is what an integer zero converts to.
\<close>

fun fdiv :: "format \<Rightarrow> ieee \<Rightarrow> ieee \<Rightarrow> ieee" where
  "fdiv F NaN b = NaN"
| "fdiv F a NaN = NaN"
| "fdiv F (Finite x) (Finite y) =
     (if y = 0 then (if x = 0 then NaN else if 0 < x then PInf else NInf)
      else round_to F (x / y))"
| "fdiv F (Finite x) b = Finite 0"
| "fdiv F a (Finite y) = (if 0 \<le> y then a else fneg a)"
| "fdiv F a b = NaN"

text \<open>Conversion of a datum to a format.\<close>

fun fcast :: "format \<Rightarrow> ieee \<Rightarrow> ieee" where
  "fcast F (Finite x) = round_to F x"
| "fcast F a = a"

section \<open>moving_average\<close>

text \<open>
  Python's slice \<^verbatim>\<open>xs[start:stop:step]\<close> for a non-zero step, with the interpreter's
  index adjustment: a negative index counts from the end, and an index out of range is
  clipped (to \<open>-1\<close> or \<open>n - 1\<close> for a negative step, to \<open>0\<close> or \<open>n\<close> otherwise).
  \<^verbatim>\<open>None\<close> stands for an omitted bound.
\<close>

definition adjust_index :: "int \<Rightarrow> int \<Rightarrow> int \<Rightarrow> int" where
  "adjust_index n step i =
     (if i < 0 then (if i + n < 0 then (if step < 0 then - 1 else 0) else i + n)
      else if n \<le> i then (if step < 0 then n - 1 else n)
      else i)"

definition slice_length :: "int \<Rightarrow> int \<Rightarrow> int \<Rightarrow> nat" where
  "slice_length start stop step =
     (if step < 0 then (if stop < start then nat ((start - stop - 1) div (- step) + 1) else 0)
      else (if start < stop then nat ((stop - start - 1) div step + 1) else 0))"

definition py_slice :: "'x list \<Rightarrow> int option \<Rightarrow> int option \<Rightarrow> int \<Rightarrow> 'x list" where
  "py_slice xs start stop step =
     (let n = int (length xs);
          b = (case start of None \<Rightarrow> (if step < 0 then n - 1 else 0)
                           | Some i \<Rightarrow> adjust_index n step i);
          e = (case stop of None \<Rightarrow> (if step < 0 then - 1 else n)
                          | Some i \<Rightarrow> adjust_index n step i)
      in map (\<lambda>k. xs ! nat (b + int k * step)) [0..<slice_length b e step])"

text \<open>
  The arithmetic of the arrays is a parameter: the element type \<open>'v\<close> of the input (float64
  for a list of Python floats, int64 for a list of integers), its addition and subtraction,
  the zero that \<^verbatim>\<open>np.insert\<close> converts to the element type, and the true division of
  an element by an integer, whose results have the type \<open>'w\<close> (float64). Nothing is assumed
  of these operations.
\<close>

record ('v, 'w) array_arith =
  zero_elem :: 'v
  add_elem :: "'v \<Rightarrow> 'v \<Rightarrow> 'v"
  sub_elem :: "'v \<Rightarrow> 'v \<Rightarrow> 'v"
  div_int :: "'v \<Rightarrow> int \<Rightarrow> 'w"

text \<open>
  The arithmetic of float64 arrays: every operation rounds its exact result to binary64,
  an integer divisor is converted to binary64 first.
\<close>

definition float64_arith :: "(ieee, ieee) array_arith" where
  "float64_arith =
     \<lparr>zero_elem = Finite 0,
      add_elem = fadd binary64,
      sub_elem = fsub binary64,
      div_int = (\<lambda>x k. fdiv binary64 x (round_to binary64 (of_int k)))\<rparr>"

text \<open>
  \<^verbatim>\<open>np.cumsum\<close>: the first element, then each element added to the sum before it, left
  to right.
\<close>

fun cumsum_from :: "('v, 'w) array_arith \<Rightarrow> 'v \<Rightarrow> 'v list \<Rightarrow> 'v list" where
  "cumsum_from A acc [] = []"
| "cumsum_from A acc (x # xs) = add_elem A acc x # cumsum_from A (add_elem A acc x) xs"

fun np_cumsum :: "('v, 'w) array_arith \<Rightarrow> 'v list \<Rightarrow> 'v list" where
  "np_cumsum A [] = []"
| "np_cumsum A (x # xs) = x # cumsum_from A x xs"

text \<open>\<^verbatim>\<open>np.insert(a, 0, 0)\<close>: a zero in front.\<close>

definition np_insert0 :: "('v, 'w) array_arith \<Rightarrow> 'v list \<Rightarrow> 'v list" where
  "np_insert0 A a = zero_elem A # a"

text \<open>\<^verbatim>\<open>np.arange(start, stop, step)\<close> for a positive integer step.\<close>

definition np_arange :: "int \<Rightarrow> int \<Rightarrow> int \<Rightarrow> int list" where
  "np_arange start stop step =
     map (\<lambda>k. start + int k * step) [0..<nat ((stop - start + step - 1) div step)]"

text \<open>
  An elementwise operation on two one-dimensional arrays under numpy's broadcasting: equal
  lengths pair up, an array of length one is stretched to the other's length (also to
  length zero), and any other pair of lengths raises.
\<close>

definition np_elementwise :: "('x \<Rightarrow> 'y \<Rightarrow> 'z) \<Rightarrow> 'x list \<Rightarrow> 'y list \<Rightarrow> error + 'z list" where
  "np_elementwise f xs ys =
     (if length xs = length ys then Inr (map2 f xs ys)
      else if length xs = 1 then Inr (map (\<lambda>y. f (hd xs) y) ys)
      else if length ys = 1 then Inr (map (\<lambda>x. f x (hd ys)) xs)
      else Inl ValueError_broadcast)"

text \<open>
  \<^verbatim>\<open>moving_average(a, window_size)\<close>, statement by statement. Division of an array by
  the scalar \<open>window_size\<close> maps over the array.
\<close>

definition moving_average :: "('v, 'w) array_arith \<Rightarrow> 'v list \<Rightarrow> int \<Rightarrow> error + 'w list" where
  "moving_average A a window_size =
     (let cumulative_sum = np_cumsum A (np_insert0 A a)
      in case np_elementwise (sub_elem A)
                (py_slice cumulative_sum (Some window_size) None 1)
                (py_slice cumulative_sum None (Some (- window_size)) 1) of
           Inl e \<Rightarrow> Inl e
         | Inr diff \<Rightarrow>
            (let middle = map (\<lambda>x. div_int A x window_size) diff;
                 r = np_arange 1 (window_size - 1) 2
             in case np_elementwise (div_int A)
                       (py_slice (np_cumsum A (py_slice a None (Some (window_size - 1)) 1)) None None 2)
                       r of
                  Inl e \<Rightarrow> Inl e
                | Inr begin \<Rightarrow>
                   (case np_elementwise (div_int A)
                           (py_slice (np_cumsum A (py_slice a None (Some (- window_size)) (- 1))) None None 2)
                           r of
                      Inl e \<Rightarrow> Inl e
                    | Inr end_rev \<Rightarrow> Inr (begin @ middle @ py_slice end_rev None None (- 1)))))"

section \<open>compute_advantage\<close>



section \<open>Sampling\<close>

text \<open>
  The pseudo-random source is made explicit: a generator is the infinite sequence of raw
  numbers it will deliver, and \<^verbatim>\<open>randbelow(n)\<close> reduces the next raw number into
  \<open>[0, n)\<close>. Every outcome the library's generator can produce is the outcome of some
  such sequence.
\<close>

type_synonym rng = "nat \<Rightarrow> nat"

definition randbelow :: "rng \<Rightarrow> nat \<Rightarrow> nat \<times> rng" where
  "randbelow g n = (g 0 mod n, \<lambda>i. g (Suc i))"

text \<open>
  \<^verbatim>\<open>random.sample(population, k)\<close> of the standard library, in its pool form:
  \<^verbatim>\<open>pool = list(population)\<close>, then for \<open>i = 0, \<dots>, k - 1\<close>:
  \<^verbatim>\<open>j = randbelow(n - i); result[i] = pool[j]; pool[j] = pool[n - i - 1]\<close>.
  The library switches to rejection sampling over a set of chosen indices when the
  population is large against \<open>k\<close>; that form draws from the same outcomes and is
  represented by the pool form here.
\<close>

fun pool_loop :: "nat \<Rightarrow> nat \<Rightarrow> rng \<Rightarrow> 'x list \<Rightarrow> 'x list \<times> rng" where
  "pool_loop 0 i g pool = ([], g)"
| "pool_loop (Suc m) i g pool =
     (let n = length pool;
          j = fst (randbelow g (n - i));
          g' = snd (randbelow g (n - i));
          x = pool ! j;
          pool' = pool[j := pool ! (n - i - 1)];
          r = pool_loop m (Suc i) g' pool'
      in (x # fst r, snd r))"

definition random_sample :: "rng \<Rightarrow> 'x list \<Rightarrow> int \<Rightarrow> (error + 'x list) \<times> rng" where
  "random_sample g population k =
     (let n = length population
      in if \<not> (0 \<le> k \<and> k \<le> int n) then (Inl ValueError_sample, g)
         else (let r = pool_loop (nat k) 0 g population in (Inr (fst r), snd r)))"

text \<open>
  \<^verbatim>\<open>state, action, reward, next_state, done = zip(*transitions)\<close>: five parallel
  sequences; with no transition at all \<^verbatim>\<open>zip()\<close> yields nothing and the unpacking
  raises.
\<close>

type_synonym ('s, 'a, 'r) batch = "'s list \<times> 'a list \<times> 'r list \<times> 's list \<times> bool list"

definition zip_star :: "('s, 'a, 'r) transition list \<Rightarrow> error + ('s, 'a, 'r) batch" where
  "zip_star transitions =
     (if transitions = [] then Inl ValueError_unpack
      else Inr (map (\<lambda>t. fst t) transitions,
                map (\<lambda>t. fst (snd t)) transitions,
                map (\<lambda>t. fst (snd (snd t))) transitions,
                map (\<lambda>t. fst (snd (snd (snd t)))) transitions,
                map (\<lambda>t. snd (snd (snd (snd t)))) transitions))"

text \<open>
  \<^verbatim>\<open>sample\<close> returns the batch (or the exception), the generator after the draws, and
  the buffer object, which no statement of the method assigns to.
\<close>

definition sample ::
  "rng \<Rightarrow> ('s, 'a, 'r) ReplayBuffer \<Rightarrow> int \<Rightarrow> (error + ('s, 'a, 'r) batch) \<times> rng \<times> ('s, 'a, 'r) ReplayBuffer" where
  "sample g self batch_size =
     (let r = random_sample g (buffer self) batch_size
      in case fst r of
           Inl e \<Rightarrow> (Inl e, snd r, self)
         | Inr transitions \<Rightarrow> (zip_star transitions, snd r, self))"

section \<open>Training drivers\<close>


record ('e, 's, 'a) Environment =
  reset :: "'e \<Rightarrow> 's \<times> 'e"
  step :: "'e \<Rightarrow> 'a \<Rightarrow> ('s \<times> real \<times> bool) \<times> 'e"




subsection \<open>On-policy\<close>







subsection \<open>Off-policy\<close>







subsection \<open>Two small collaborators\<close>




section \<open>Properties of the replay buffer\<close>

lemma maxlen_add [simp]: "maxlen (add self s a r s' d) = maxlen self"
  by (simp add: add_def)

lemma maxlen_add_all [simp]: "maxlen (add_all self ts) = maxlen self"
  by (induction self ts rule: add_all.induct) simp_all

lemma deque_append_drop:
  assumes "length d \<le> bound"
  shows "deque_append bound d x = drop (Suc (length d) - bound) (d @ [x])"
proof (cases "bound < Suc (length d)")
  case True
  with assms have k: "Suc (length d) - bound = Suc 0" by simp
  have "tl (d @ [x]) = drop (Suc 0) (d @ [x])"
    by (metis drop0 drop_Suc)
  with True k show ?thesis by (simp only: deque_append_def Let_def length_append_singleton if_True)
next
  case False
  then show ?thesis by (simp add: deque_append_def Let_def)
qed

lemma buffer_add_all:
  "length (buffer self) \<le> maxlen self \<Longrightarrow>
   buffer (add_all self ts) =
     drop (length (buffer self @ ts) - maxlen self) (buffer self @ ts)"
proof (induction self ts rule: add_all.induct)
  case (1 self)
  then show ?case by simp
next
  case (2 self s a r s' d ts)
  let ?t = "(s, a, r, s', d)"
  let ?self' = "add self s a r s' d"
  let ?B = "buffer self"
  let ?M = "maxlen self"
  let ?k = "Suc (length ?B) - ?M"
  have b: "buffer ?self' = drop ?k (?B @ [?t])"
    using "2.prems" by (simp add: add_def deque_append_drop)
  have k_le: "?k \<le> length (?B @ [?t])" by simp
  have le: "length (buffer ?self') \<le> maxlen ?self'"
    unfolding b by simp
  have app: "buffer ?self' @ ts = drop ?k (?B @ ?t # ts)"
  proof -
    have "drop ?k ((?B @ [?t]) @ ts) = drop ?k (?B @ [?t]) @ drop (?k - length (?B @ [?t])) ts"
      by (rule drop_append)
    moreover have "?k - length (?B @ [?t]) = 0"
      using k_le by simp
    ultimately have "drop ?k ((?B @ [?t]) @ ts) = drop ?k (?B @ [?t]) @ ts"
      by (simp only: drop_0)
    then show ?thesis
      by (simp only: b append_assoc append_Cons append_Nil)
  qed
  have "buffer (add_all ?self' ts) =
          drop (length (buffer ?self' @ ts) - ?M) (buffer ?self' @ ts)"
    using "2.IH" [OF le] by simp
  also have "\<dots> = drop (length (drop ?k (?B @ ?t # ts)) - ?M) (drop ?k (?B @ ?t # ts))"
    by (simp only: app)
  also have "\<dots> = drop (length (drop ?k (?B @ ?t # ts)) - ?M + ?k) (?B @ ?t # ts)"
    by (simp only: drop_drop)
  also have "length (drop ?k (?B @ ?t # ts)) - ?M + ?k = length (?B @ ?t # ts) - ?M"
    using "2.prems" by simp
  finally show ?case by simp
qed

lemma length_buffer_add_all:
  "length (buffer self) \<le> maxlen self \<Longrightarrow> length (buffer (add_all self ts)) \<le> maxlen self"
  by (simp add: buffer_add_all)

text \<open>
  C1. After construction with a capacity \<open>C > 0\<close> (one the deque accepts, so below
  \<open>2^63\<close>), any run of \<open>N > C\<close> calls of \<^verbatim>\<open>add\<close> leaves \<^verbatim>\<open>size()\<close> equal to \<open>C\<close>,
  and the buffer holds exactly the last \<open>C\<close> transitions added, in the order they were
  added.
\<close>

theorem replay_buffer_fifo:
  fixes ts :: "('s, 'a, 'r) transition list"
  assumes "0 < C" and "C < 2 ^ 63" and "nat C < length ts"
  shows "\<exists>rb0. ReplayBuffer_init C = Inr rb0
           \<and> int (fst (size_rb (add_all rb0 ts))) = C
           \<and> buffer (add_all rb0 ts) = drop (length ts - nat C) ts"
proof -
  let ?rb0 = "\<lparr>buffer = [], maxlen = nat C\<rparr> :: ('s, 'a, 'r) ReplayBuffer"
  have init: "ReplayBuffer_init C = Inr ?rb0"
    using assms(1,2) by (simp add: ReplayBuffer_init_def)
  have buf: "buffer (add_all ?rb0 ts) = drop (length ts - nat C) ts"
    using buffer_add_all [of ?rb0 ts] by simp
  have "int (fst (size_rb (add_all ?rb0 ts))) = C"
    using assms by (simp add: size_rb_def buf)
  with init buf show ?thesis by blast
qed

theorem replay_buffer_fifo_witness:
  "(0::int) < 2 \<and> (2::int) < 2 ^ 63
   \<and> nat 2 < length [(0::nat, 0::nat, 0::int, 1::nat, False), (1, 0, 1, 2, False), (2, 0, 1, 3, True)]
   \<and> (\<exists>rb0. ReplayBuffer_init 2 = Inr rb0
        \<and> int (fst (size_rb (add_all rb0 [(0::nat, 0::nat, 0::int, 1::nat, False), (1, 0, 1, 2, False), (2, 0, 1, 3, True)]))) = 2
        \<and> buffer (add_all rb0 [(0::nat, 0::nat, 0::int, 1::nat, False), (1, 0, 1, 2, False), (2, 0, 1, 3, True)])
            = [(1, 0, 1, 2, False), (2, 0, 1, 3, True)])"
  using replay_buffer_fifo [of 2 "[(0::nat, 0::nat, 0::int, 1::nat, False), (1, 0, 1, 2, False), (2, 0, 1, 3, True)]"]
  by simp

text \<open>
  C5 as stated fails at capacity 0: \<^verbatim>\<open>deque(maxlen=0)\<close> is accepted, so the
  construction succeeds.
\<close>

theorem replay_buffer_init_zero_succeeds:
  "(ReplayBuffer_init 0 :: error + (nat, nat, int) ReplayBuffer) = Inr \<lparr>buffer = [], maxlen = 0\<rparr>
   \<and> (ReplayBuffer_init 0 :: error + (nat, nat, int) ReplayBuffer) \<noteq> Inl ValueError_maxlen
   \<and> (ReplayBuffer_init 0 :: error + (nat, nat, int) ReplayBuffer) \<noteq> Inl OverflowError"
  by (simp add: ReplayBuffer_init_def)

text \<open>
  C5, amended. Construction fails for every negative capacity (with the deque's ValueError
  from \<open>-2^63\<close> on, with OverflowError below) and for every capacity from \<open>2^63\<close> on
  (OverflowError); for every capacity with \<open>0 \<le> capacity < 2^63\<close>, zero included, it
  succeeds and yields an empty buffer, whose size no run of \<^verbatim>\<open>add\<close> takes above the
  capacity.
\<close>

theorem replay_buffer_init_cases:
  "(capacity < - (2 ^ 63) \<or> 2 ^ 63 \<le> capacity \<longrightarrow>
      (ReplayBuffer_init capacity :: error + ('s, 'a, 'r) ReplayBuffer) = Inl OverflowError)
   \<and> (- (2 ^ 63) \<le> capacity \<and> capacity < 0 \<longrightarrow>
      (ReplayBuffer_init capacity :: error + ('s, 'a, 'r) ReplayBuffer) = Inl ValueError_maxlen)
   \<and> (0 \<le> capacity \<and> capacity < 2 ^ 63 \<longrightarrow>
      (\<exists>rb0 :: ('s, 'a, 'r) ReplayBuffer. ReplayBuffer_init capacity = Inr rb0
         \<and> buffer rb0 = [] \<and> fst (size_rb rb0) = 0
         \<and> (\<forall>ts. int (fst (size_rb (add_all rb0 ts))) \<le> capacity)))"
proof (intro conjI impI)
  assume "capacity < - (2 ^ 63) \<or> 2 ^ 63 \<le> capacity"
  then show "(ReplayBuffer_init capacity :: error + ('s, 'a, 'r) ReplayBuffer) = Inl OverflowError"
    by (simp add: ReplayBuffer_init_def)
next
  assume "- (2 ^ 63) \<le> capacity \<and> capacity < 0"
  then show "(ReplayBuffer_init capacity :: error + ('s, 'a, 'r) ReplayBuffer) = Inl ValueError_maxlen"
    by (simp add: ReplayBuffer_init_def)
next
  assume c: "0 \<le> capacity \<and> capacity < 2 ^ 63"
  let ?rb0 = "\<lparr>buffer = [], maxlen = nat capacity\<rparr> :: ('s, 'a, 'r) ReplayBuffer"
  have init: "ReplayBuffer_init capacity = Inr ?rb0"
    using c by (simp add: ReplayBuffer_init_def)
  have bound: "int (fst (size_rb (add_all ?rb0 ts))) \<le> capacity" for ts
  proof -
    have "length (buffer (add_all ?rb0 ts)) \<le> maxlen ?rb0"
      by (rule length_buffer_add_all) simp
    then have "length (buffer (add_all ?rb0 ts)) \<le> nat capacity"
      by simp
    moreover have "int (nat capacity) = capacity" using c by simp
    ultimately have "int (length (buffer (add_all ?rb0 ts))) \<le> capacity"
      by linarith
    then show ?thesis by (simp add: size_rb_def)
  qed
  have "buffer ?rb0 = []" and "fst (size_rb ?rb0) = 0"
    by (simp_all add: size_rb_def)
  with init bound
  show "\<exists>rb0 :: ('s, 'a, 'r) ReplayBuffer. ReplayBuffer_init capacity = Inr rb0
         \<and> buffer rb0 = [] \<and> fst (size_rb rb0) = 0
         \<and> (\<forall>ts. int (fst (size_rb (add_all rb0 ts))) \<le> capacity)"
    by blast
qed

theorem replay_buffer_init_cases_witness:
  "(2 :: int) ^ 63 \<le> 2 ^ 63
   \<and> (ReplayBuffer_init (2 ^ 63) :: error + (nat, nat, int) ReplayBuffer) = Inl OverflowError
   \<and> - (2 ^ 63) \<le> (- 1 :: int) \<and> (- 1 :: int) < 0
   \<and> (ReplayBuffer_init (- 1) :: error + (nat, nat, int) ReplayBuffer) = Inl ValueError_maxlen
   \<and> (0 :: int) \<le> 0 \<and> (0 :: int) < 2 ^ 63
   \<and> (\<exists>rb0 :: (nat, nat, int) ReplayBuffer. ReplayBuffer_init 0 = Inr rb0 \<and> buffer rb0 = []
         \<and> int (fst (size_rb (add_all rb0 [(0, 0, 1, 1, True)]))) \<le> 0)"
proof -
  note a = replay_buffer_init_cases [of "2 ^ 63", where ?'s = nat and ?'a = nat and ?'r = int]
  note b = replay_buffer_init_cases [of "- 1", where ?'s = nat and ?'a = nat and ?'r = int]
  note c = replay_buffer_init_cases [of 0, where ?'s = nat and ?'a = nat and ?'r = int]
  have 1: "(ReplayBuffer_init (2 ^ 63) :: error + (nat, nat, int) ReplayBuffer) = Inl OverflowError"
    using a by simp
  have 2: "(ReplayBuffer_init (- 1) :: error + (nat, nat, int) ReplayBuffer) = Inl ValueError_maxlen"
    using b by simp
  from c have "\<exists>rb0 :: (nat, nat, int) ReplayBuffer. ReplayBuffer_init 0 = Inr rb0
         \<and> buffer rb0 = [] \<and> fst (size_rb rb0) = 0
         \<and> (\<forall>ts. int (fst (size_rb (add_all rb0 ts))) \<le> 0)"
    by simp
  then have 3: "\<exists>rb0 :: (nat, nat, int) ReplayBuffer. ReplayBuffer_init 0 = Inr rb0 \<and> buffer rb0 = []
         \<and> int (fst (size_rb (add_all rb0 [(0, 0, 1, 1, True)]))) \<le> 0"
    by blast
  from 1 2 3 show ?thesis by simp
qed

section \<open>Properties of the rounding\<close>

lemma pow2_powr: "pow2 k = 2 powr (real_of_int k)"
  by (simp add: pow2_def powr_real_of_int)

lemma pow2_pos [simp]: "0 < pow2 k"
  by (simp add: pow2_powr)

lemma pow2_nonneg [simp]: "0 \<le> pow2 k"
  using pow2_pos [of k] by linarith

lemma pow2_neq0 [simp]: "pow2 k \<noteq> 0"
  using pow2_pos [of k] by linarith

lemma pow2_not_le0 [simp]: "\<not> pow2 k \<le> 0"
  using pow2_pos [of k] by linarith

lemma abs_pow2 [simp]: "\<bar>pow2 k\<bar> = pow2 k"
  by simp

lemma pow2_add: "pow2 (a + b) = pow2 a * pow2 b"
  by (simp add: pow2_powr powr_add)

lemma pow2_nat: "0 \<le> k \<Longrightarrow> pow2 k = 2 ^ nat k"
  by (simp add: pow2_def)

lemma pow2_mono: "a \<le> b \<Longrightarrow> pow2 a \<le> pow2 b"
  by (simp add: pow2_powr)

lemma pow2_strict_mono: "a < b \<Longrightarrow> pow2 a < pow2 b"
  by (simp add: pow2_powr)

lemma pow2_less_cancel: "pow2 a < pow2 b \<Longrightarrow> a < b"
  by (simp add: pow2_powr)

lemma floor_log2_lower: "0 < x \<Longrightarrow> pow2 \<lfloor>log 2 x\<rfloor> \<le> x"
proof -
  assume x: "0 < x"
  have "2 powr (real_of_int \<lfloor>log 2 x\<rfloor>) \<le> 2 powr (log 2 x)"
    by (rule powr_mono) simp_all
  with x show ?thesis by (simp add: pow2_powr)
qed

lemma floor_log2_upper: "0 < x \<Longrightarrow> x < pow2 (\<lfloor>log 2 x\<rfloor> + 1)"
proof -
  assume x: "0 < x"
  have "log 2 x < real_of_int (\<lfloor>log 2 x\<rfloor> + 1)" by linarith
  then have "2 powr (log 2 x) < 2 powr (real_of_int (\<lfloor>log 2 x\<rfloor> + 1))"
    by simp
  with x show ?thesis by (simp add: pow2_powr)
qed

lemma floor_log2_unique:
  assumes "pow2 e \<le> x" and "x < pow2 (e + 1)"
  shows "\<lfloor>log 2 x\<rfloor> = e"
proof -
  have x: "0 < x" using assms(1) pow2_pos [of e] by linarith
  have "real_of_int e \<le> log 2 x"
    using assms(1) x by (simp add: le_log_iff pow2_powr)
  moreover have "log 2 x < real_of_int e + 1"
    using assms(2) x by (simp add: log_less_iff pow2_powr)
  ultimately show ?thesis by linarith
qed

lemma round_half_even_int [simp]: "round_half_even (of_int n) = n"
  by (simp add: round_half_even_def)

lemma round_to_zero [simp]: "round_to F 0 = Finite 0"
  by (simp add: round_to_def)

text \<open>
  A number \<open>m * 2^k\<close> whose significand \<open>m\<close> fits the precision, whose exponent \<open>k\<close> is
  not below the least one and which is inside the finite range, is a datum of the format:
  rounding leaves it as it is.
\<close>

lemma round_to_representable:
  assumes x: "x = of_int m * pow2 k"
    and m: "\<bar>m\<bar> < 2 ^ precision F"
    and k: "emin F - int (precision F) + 1 \<le> k"
    and r: "\<bar>x\<bar> < pow2 (emax F + 1)"
  shows "round_to F x = Finite x"
proof (cases "x = 0")
  case True
  then show ?thesis by simp
next
  case False
  define p where "p = int (precision F)"
  define e where "e = \<lfloor>log 2 \<bar>x\<bar>\<rfloor>"
  define j where "j = max e (emin F) - p + 1"
  have ax: "0 < \<bar>x\<bar>" using False by simp
  have "\<bar>x\<bar> = of_int \<bar>m\<bar> * pow2 k"
    by (simp add: x abs_mult)
  also have "\<dots> < 2 ^ precision F * pow2 k"
  proof -
    have "real_of_int \<bar>m\<bar> < real_of_int (2 ^ precision F)"
      using m by (simp only: of_int_less_iff)
    then show ?thesis by simp
  qed
  also have "\<dots> = pow2 (p + k)"
    by (simp add: pow2_add pow2_nat p_def)
  finally have up: "\<bar>x\<bar> < pow2 (p + k)" .
  have "pow2 e \<le> \<bar>x\<bar>" unfolding e_def using ax by (rule floor_log2_lower)
  with up have "pow2 e < pow2 (p + k)" by linarith
  then have "e < p + k" by (rule pow2_less_cancel)
  with k have jk: "j \<le> k" unfolding j_def p_def by linarith
  define d where "d = nat (k - j)"
  have kd: "k = j + int d" using jk by (simp add: d_def)
  have pk: "pow2 k = pow2 j * 2 ^ d"
    by (subst kd) (simp add: pow2_add pow2_nat)
  have xq: "x / pow2 j = of_int (m * 2 ^ d)"
    unfolding x pk by simp
  have "of_int (round_half_even (x / pow2 j)) * pow2 j = of_int (m * 2 ^ d) * pow2 j"
    by (simp only: xq round_half_even_int)
  also have "\<dots> = x"
    unfolding x pk by simp
  finally have y: "of_int (round_half_even (x / pow2 j)) * pow2 j = x" .
  have "round_to F x =
     (if pow2 (emax F + 1) \<le> \<bar>of_int (round_half_even (x / pow2 j)) * pow2 j\<bar>
      then (if 0 < x then PInf else NInf)
      else Finite (of_int (round_half_even (x / pow2 j)) * pow2 j))"
    using False by (simp add: round_to_def Let_def j_def e_def p_def)
  with r show ?thesis by (simp only: y) simp
qed

text \<open>The value of a rounding whose binade is known.\<close>

lemma round_to_binade:
  assumes "pow2 e \<le> \<bar>x\<bar>" and "\<bar>x\<bar> < pow2 (e + 1)"
  shows "round_to F x =
     (let j = max e (emin F) - int (precision F) + 1;
          y = of_int (round_half_even (x / pow2 j)) * pow2 j
      in if pow2 (emax F + 1) \<le> \<bar>y\<bar> then (if 0 < x then PInf else NInf) else Finite y)"
proof -
  have "\<lfloor>log 2 \<bar>x\<bar>\<rfloor> = e" using assms by (rule floor_log2_unique)
  moreover have "x \<noteq> 0" using assms(1) pow2_pos [of e] by auto
  ultimately show ?thesis by (simp add: round_to_def)
qed

text \<open>Integers over powers of two within the precision are data of the format.\<close>

lemma round_to_dyadic:
  assumes m: "\<bar>m\<bar> < 2 ^ precision F"
    and d: "int d \<le> int (precision F) - 1 - emin F"
    and p: "int (precision F) \<le> emax F + 1"
  shows "round_to F (of_int m / 2 ^ d) = Finite (of_int m / 2 ^ d)"
proof (rule round_to_representable [where m = m and k = "- int d"])
  show "real_of_int m / 2 ^ d = real_of_int m * pow2 (- int d)"
    by (cases "d = 0") (simp_all add: pow2_def divide_inverse)
  show "\<bar>m\<bar> < 2 ^ precision F" by (rule m)
  show "emin F - int (precision F) + 1 \<le> - int d" using d by linarith
  have "\<bar>real_of_int m / 2 ^ d\<bar> \<le> \<bar>real_of_int m\<bar>"
  proof -
    have "\<bar>real_of_int m\<bar> * 1 \<le> \<bar>real_of_int m\<bar> * 2 ^ d"
      by (rule mult_left_mono) simp_all
    then show ?thesis by (simp add: abs_divide divide_le_eq)
  qed
  also have "\<dots> < 2 ^ precision F"
  proof -
    have "real_of_int \<bar>m\<bar> < real_of_int (2 ^ precision F)"
      using m by (simp only: of_int_less_iff)
    then show ?thesis by simp
  qed
  also have "\<dots> = pow2 (int (precision F))" by (simp add: pow2_nat)
  also have "\<dots> \<le> pow2 (emax F + 1)" using p by (rule pow2_mono)
  finally show "\<bar>real_of_int m / 2 ^ d\<bar> < pow2 (emax F + 1)" .
qed

lemma round_binary64_int:
  "\<bar>m\<bar> < 2 ^ 53 \<Longrightarrow> round_to binary64 (of_int m) = Finite (of_int m)"
  using round_to_dyadic [of m binary64 0] by (simp add: binary64_def)

lemma round_binary32_int:
  "\<bar>m\<bar> < 2 ^ 24 \<Longrightarrow> round_to binary32 (of_int m) = Finite (of_int m)"
  using round_to_dyadic [of m binary32 0] by (simp add: binary32_def)

lemma round_binary64_numeral [simp]:
  "(numeral w :: int) < 2 ^ 53 \<Longrightarrow> round_to binary64 (numeral w) = Finite (numeral w)"
  using round_binary64_int [of "numeral w"] by simp

lemma round_binary32_numeral [simp]:
  "(numeral w :: int) < 2 ^ 24 \<Longrightarrow> round_to binary32 (numeral w) = Finite (numeral w)"
  using round_binary32_int [of "numeral w"] by simp

lemma round_binary64_one [simp]: "round_to binary64 1 = Finite 1"
  using round_binary64_int [of 1] by simp

lemma round_binary32_one [simp]: "round_to binary32 1 = Finite 1"
  using round_binary32_int [of 1] by simp

lemma round_binary64_halves:
  "\<bar>m\<bar> < 2 ^ 53 \<Longrightarrow> round_to binary64 (of_int m / 2) = Finite (of_int m / 2)"
  using round_to_dyadic [of m binary64 1] by (simp add: binary64_def)

section \<open>Properties of moving_average\<close>

subsection \<open>Slices, running sums and ranges\<close>

lemma py_slice_from:
  "0 \<le> w \<Longrightarrow> py_slice xs (Some w) None 1 = drop (nat w) xs"
  by (rule nth_equalityI)
     (auto simp: py_slice_def adjust_index_def slice_length_def Let_def nat_add_distrib split: if_splits)

lemma py_slice_upto:
  "0 \<le> m \<Longrightarrow> py_slice xs None (Some m) 1 = take (nat m) xs"
  by (rule nth_equalityI)
     (auto simp: py_slice_def adjust_index_def slice_length_def Let_def split: if_splits)

lemma py_slice_upto_neg:
  "0 < w \<Longrightarrow> py_slice xs None (Some (- w)) 1 = take (length xs - nat w) xs"
  by (rule nth_equalityI)
     (auto simp: py_slice_def adjust_index_def slice_length_def Let_def split: if_splits)

lemma nth_from_end: "i < length xs \<Longrightarrow> xs ! nat (int (length xs) - 1 - int i) = rev xs ! i"
proof -
  assume i: "i < length xs"
  then have "nat (int (length xs) - 1 - int i) = length xs - Suc i" by simp
  with i show ?thesis by (simp add: rev_nth)
qed

lemma py_slice_rev: "py_slice xs None None (- 1) = rev xs"
  by (rule nth_equalityI)
     (auto simp: py_slice_def slice_length_def Let_def nth_from_end split: if_splits)

lemma py_slice_rev_upto_neg:
  "0 < w \<Longrightarrow> py_slice xs None (Some (- w)) (- 1) = take (nat w - 1) (rev xs)"
  by (rule nth_equalityI)
     (auto simp: py_slice_def adjust_index_def slice_length_def Let_def nth_from_end split: if_splits)

lemma length_py_slice_step2: "length (py_slice xs None None 2) = (length xs + 1) div 2"
  by (auto simp: py_slice_def slice_length_def Let_def)

lemma nth_py_slice_step2:
  "k < (length xs + 1) div 2 \<Longrightarrow> py_slice xs None None 2 ! k = xs ! (2 * k)"
  by (auto simp: py_slice_def slice_length_def Let_def nat_mult_distrib mult.commute
      intro: arg_cong [where f = "(!) xs"])

lemma length_cumsum_from: "length (cumsum_from A acc xs) = length xs"
  by (induction xs arbitrary: acc) simp_all

lemma nth_cumsum_from:
  "k < length xs \<Longrightarrow> cumsum_from A acc xs ! k = foldl (add_elem A) acc (take (Suc k) xs)"
proof (induction xs arbitrary: acc k)
  case Nil
  then show ?case by simp
next
  case (Cons x xs)
  then show ?case by (cases k) simp_all
qed

lemma length_np_cumsum: "length (np_cumsum A xs) = length xs"
  by (cases xs) (simp_all add: length_cumsum_from)

text \<open>
  Entry \<open>k\<close> of the running sums is the first element with the next \<open>k\<close> added to it, one
  after the other.
\<close>

lemma nth_np_cumsum:
  "k < length xs \<Longrightarrow> np_cumsum A xs ! k = foldl (add_elem A) (hd xs) (take k (tl xs))"
proof -
  assume k: "k < length xs"
  then obtain x xs' where xs: "xs = x # xs'" by (cases xs) auto
  with k show ?thesis by (cases k) (simp_all add: nth_cumsum_from)
qed

lemma nth_cumulative_sum:
  "k \<le> length a \<Longrightarrow>
   np_cumsum A (np_insert0 A a) ! k = foldl (add_elem A) (zero_elem A) (take k a)"
  by (cases k) (simp_all add: np_insert0_def nth_cumsum_from)

lemma np_arange_odd:
  "np_arange 1 (2 * int h) 2 = map (\<lambda>k. 1 + 2 * int k) [0..<h]"
  by (simp add: np_arange_def mult.commute)

lemma np_elementwise_same:
  "length xs = length ys \<Longrightarrow> np_elementwise f xs ys = Inr (map2 f xs ys)"
  by (simp add: np_elementwise_def)

subsection \<open>The result for an odd window\<close>

text \<open>The three pieces of the result for an odd window \<open>2 h + 1\<close>.\<close>

lemma edge_piece:
  assumes "2 * h \<le> length xs"
  shows "np_elementwise (div_int A)
           (py_slice (np_cumsum A (take (2 * h) xs)) None None 2)
           (np_arange 1 (2 * int h) 2)
         = Inr (map (\<lambda>i. div_int A (foldl (add_elem A) (hd xs) (take (2 * i) (tl xs))) (int (2 * i + 1)))
                  [0..<h])"
proof -
  let ?c = "py_slice (np_cumsum A (take (2 * h) xs)) None None 2"
  let ?r = "np_arange 1 (2 * int h) 2"
  have lc: "length ?c = h"
    using assms by (simp add: length_py_slice_step2 length_np_cumsum)
  have lr: "length ?r = h" by (simp add: np_arange_odd)
  have nc: "?c ! i = foldl (add_elem A) (hd xs) (take (2 * i) (tl xs))" if "i < h" for i
  proof -
    have "?c ! i = np_cumsum A (take (2 * h) xs) ! (2 * i)"
      using that assms by (simp add: nth_py_slice_step2 length_np_cumsum)
    also have "\<dots> = foldl (add_elem A) (hd (take (2 * h) xs)) (take (2 * i) (tl (take (2 * h) xs)))"
      using that assms by (intro nth_np_cumsum) simp
    also have "hd (take (2 * h) xs) = hd xs"
      using that by (cases xs) simp_all
    also have "take (2 * i) (tl (take (2 * h) xs)) = take (2 * i) (tl xs)"
    proof -
      have "2 * i \<le> 2 * h - 1" using that by linarith
      then show ?thesis by (simp add: tl_take min_def)
    qed
    finally show ?thesis .
  qed
  have nr: "?r ! i = int (2 * i + 1)" if "i < h" for i
    using that by (simp add: np_arange_odd)
  have "map2 (div_int A) ?c ?r
          = map (\<lambda>i. div_int A (foldl (add_elem A) (hd xs) (take (2 * i) (tl xs))) (int (2 * i + 1))) [0..<h]"
    by (rule nth_equalityI) (simp_all add: lc lr nc nr)
  then show ?thesis using lc lr by (simp only: np_elementwise_same)
qed

lemma middle_piece:
  assumes "2 * h + 1 \<le> length a"
  shows "np_elementwise (sub_elem A)
           (py_slice (np_cumsum A (np_insert0 A a)) (Some (2 * int h + 1)) None 1)
           (py_slice (np_cumsum A (np_insert0 A a)) None (Some (- (2 * int h + 1))) 1)
         = Inr (map (\<lambda>i. sub_elem A (np_cumsum A (np_insert0 A a) ! (i + (2 * h + 1)))
                                     (np_cumsum A (np_insert0 A a) ! i))
                  [0..<length a - 2 * h])"
proof -
  let ?cs = "np_cumsum A (np_insert0 A a)"
  have lcs: "length ?cs = Suc (length a)" by (simp add: length_np_cumsum np_insert0_def del: np_cumsum.simps)
  have n: "nat (2 * int h + 1) = 2 * h + 1" by simp
  have A: "py_slice ?cs (Some (2 * int h + 1)) None 1 = drop (2 * h + 1) ?cs"
    using py_slice_from [of "2 * int h + 1" ?cs] n by simp
  have B: "py_slice ?cs None (Some (- (2 * int h + 1))) 1 = take (length ?cs - (2 * h + 1)) ?cs"
    using py_slice_upto_neg [of "2 * int h + 1" ?cs] n by simp
  have lA: "length (drop (2 * h + 1) ?cs) = length a - 2 * h" using assms lcs by simp
  have lB: "length (take (length ?cs - (2 * h + 1)) ?cs) = length a - 2 * h" using assms lcs by simp
  have "map2 (sub_elem A) (drop (2 * h + 1) ?cs) (take (length ?cs - (2 * h + 1)) ?cs)
          = map (\<lambda>i. sub_elem A (?cs ! (i + (2 * h + 1))) (?cs ! i)) [0..<length a - 2 * h]"
    using assms lcs by (intro nth_equalityI) (simp_all add: add.commute)
  then show ?thesis
    using lA lB by (simp only: A B np_elementwise_same)
qed

lemma moving_average_odd:
  assumes "2 * h + 1 \<le> length a"
  shows "moving_average A a (2 * int h + 1) =
     Inr (map (\<lambda>i. div_int A (foldl (add_elem A) (hd a) (take (2 * i) (tl a))) (int (2 * i + 1))) [0..<h]
          @ map (\<lambda>i. div_int A (sub_elem A (np_cumsum A (np_insert0 A a) ! (i + (2 * h + 1)))
                                           (np_cumsum A (np_insert0 A a) ! i))
                        (2 * int h + 1)) [0..<length a - 2 * h]
          @ rev (map (\<lambda>i. div_int A (foldl (add_elem A) (hd (rev a)) (take (2 * i) (tl (rev a))))
                              (int (2 * i + 1))) [0..<h]))"
proof -
  have w1: "2 * int h + 1 - 1 = 2 * int h" by simp
  have n2: "nat (2 * int h) = 2 * h" by simp
  have n1: "nat (2 * int h + 1) - 1 = 2 * h" by simp
  have s1: "py_slice a None (Some (2 * int h)) 1 = take (2 * h) a"
    using py_slice_upto [of "2 * int h" a] by (simp only: n2)
  have s2: "py_slice a None (Some (- (2 * int h + 1))) (- 1) = take (2 * h) (rev a)"
    using py_slice_rev_upto_neg [of "2 * int h + 1" a] by (simp only: n1)
  have le: "2 * h \<le> length a" "2 * h \<le> length (rev a)" using assms by simp_all
  show ?thesis
    unfolding moving_average_def Let_def
    by (simp only: w1 middle_piece [OF assms] s1 s2 edge_piece [OF le(1)] edge_piece [OF le(2)]
          sum.case py_slice_rev map_map comp_def)
qed

subsection \<open>Small inputs, in any arithmetic\<close>

lemma moving_average_two:
  "moving_average A [x1, x2] 2 =
     Inr [div_int A (sub_elem A (add_elem A (add_elem A (zero_elem A) x1) x2) (zero_elem A)) 2]"
  by (simp add: moving_average_def np_insert0_def py_slice_def adjust_index_def slice_length_def
        np_arange_def np_elementwise_def upt_rec)

lemma moving_average_four:
  "moving_average A [x1, x2, x3, x4] 4 =
     Inr [div_int A x1 1,
          div_int A (add_elem A (add_elem A x1 x2) x3) 1,
          div_int A (sub_elem A (add_elem A (add_elem A (add_elem A (add_elem A (zero_elem A) x1) x2) x3) x4)
                       (zero_elem A)) 4,
          div_int A (add_elem A (add_elem A x4 x3) x2) 1,
          div_int A x4 1]"
  by (simp add: moving_average_def np_insert0_def py_slice_def adjust_index_def slice_length_def
        np_arange_def np_elementwise_def upt_rec)

lemma odd_window:
  assumes "odd (w :: int)" and "2 \<le> w"
  shows "w = 2 * int (nat w div 2) + 1"
proof -
  from assms(1) obtain k where k: "w = 2 * k + 1" by (auto elim: oddE)
  with assms(2) have "0 \<le> k" by simp
  then have "nat w div 2 = nat k" using k by (simp add: nat_add_distrib nat_mult_distrib)
  with \<open>0 \<le> k\<close> k show ?thesis by simp
qed

subsection \<open>The length of the result\<close>

text \<open>
  C4 as stated fails for an even window: with \<open>window_size = 2\<close> the range
  \<^verbatim>\<open>np.arange(1, 1, 2)\<close> is empty, broadcasting against it empties both edges, and two
  values give one output (here in float64 arithmetic; the count is the same in any).
\<close>

theorem moving_average_two_counterexample:
  "moving_average float64_arith [Finite 1, Finite 2] 2 = Inr [Finite (3 / 2)]
   \<and> length [Finite (3 / 2)] \<noteq> length [Finite 1, Finite 2]"
proof -
  have h: "round_to binary64 (3 / 2) = Finite (3 / 2)"
    using round_binary64_halves [of 3] by simp
  show ?thesis
    by (simp add: moving_average_two float64_arith_def fsub_def h)
qed

text \<open>
  C4, amended. For every odd \<open>window_size\<close> with \<open>2 \<le> window_size \<le> length(values)\<close>,
  \<^verbatim>\<open>moving_average\<close> returns a sequence of the same length as \<open>values\<close>, whatever the
  arithmetic of the elements.
\<close>

theorem moving_average_length_odd:
  assumes "odd window_size" and "2 \<le> window_size" and "window_size \<le> int (length a)"
  shows "\<exists>out. moving_average A a window_size = Inr out \<and> length out = length a"
proof -
  let ?h = "nat window_size div 2"
  have w: "window_size = 2 * int ?h + 1" using assms(1,2) by (rule odd_window)
  then have le: "2 * ?h + 1 \<le> length a" using assms(3) by linarith
  from le have "?h + ((length a - 2 * ?h) + ?h) = length a" by simp
  then show ?thesis
    by (subst w) (simp only: moving_average_odd [OF le] sum.inject length_append length_map
          length_rev length_upt diff_zero ex_simps simp_thms)
qed

theorem moving_average_length_odd_witness:
  "odd (5 :: int) \<and> (2 :: int) \<le> 5
   \<and> 5 \<le> int (length [Finite 1, Finite 4, Finite 2, Finite 8, Finite 5, Finite 7, Finite 3])
   \<and> (\<exists>out. moving_average float64_arith
                [Finite 1, Finite 4, Finite 2, Finite 8, Finite 5, Finite 7, Finite 3] 5 = Inr out
         \<and> length out = length [Finite 1, Finite 4, Finite 2, Finite 8, Finite 5, Finite 7, Finite 3])"
  using moving_average_length_odd
          [of 5 "[Finite 1, Finite 4, Finite 2, Finite 8, Finite 5, Finite 7, Finite 3]" float64_arith]
  by simp

subsection \<open>The entries of the result\<close>

text \<open>
  C7 as stated fails for an even window: with \<open>window_size = 4\<close> the divisors are
  \<^verbatim>\<open>np.arange(1, 3, 2) = [1]\<close>, stretched over both leading outputs, so the second
  leading output is the sum of the first three values divided by 1, not by 3.
\<close>

theorem moving_average_four_counterexample:
  "moving_average float64_arith [Finite 1, Finite 2, Finite 3, Finite 4] 4
     = Inr [Finite 1, Finite 6, Finite (5 / 2), Finite 9, Finite 4]
   \<and> div_int float64_arith
        (foldl (add_elem float64_arith) (Finite 1) [Finite 2, Finite 3]) 3 = Finite 2
   \<and> [Finite 1, Finite 6, Finite (5 / 2), Finite 9, Finite 4] ! 1 \<noteq> Finite 2"
proof -
  have h: "round_to binary64 (5 / 2) = Finite (5 / 2)"
    using round_binary64_halves [of 5] by simp
  show ?thesis
    by (simp add: moving_average_four float64_arith_def fsub_def h)
qed

text \<open>
  C7, amended. For every odd \<open>window_size = 2 h + 1\<close> with
  \<open>2 \<le> window_size \<le> length(a)\<close>, in the arithmetic of the array (each sum, difference
  and quotient being the machine's): the \<open>h\<close> leading outputs are the sums of the first
  \<open>1, 3, 5, \<dots>\<close> values, accumulated from the left, divided by \<open>1, 3, 5, \<dots>\<close>; the \<open>h\<close>
  trailing outputs are the same formula on the reversed sequence, mirrored; every output
  in between is the difference of two cumulative sums \<open>window_size\<close> apart (each
  accumulated from the inserted zero) divided by \<open>window_size\<close>.
\<close>

theorem moving_average_edges_odd:
  assumes "odd window_size" and "2 \<le> window_size" and "window_size \<le> int (length a)"
  shows "\<exists>out. moving_average A a window_size = Inr out \<and> length out = length a
     \<and> (\<forall>i < nat window_size div 2.
          out ! i = div_int A (foldl (add_elem A) (hd a) (take (2 * i) (tl a))) (int (2 * i + 1)))
     \<and> (\<forall>i < nat window_size div 2.
          out ! (length a - 1 - i)
            = div_int A (foldl (add_elem A) (hd (rev a)) (take (2 * i) (tl (rev a)))) (int (2 * i + 1)))
     \<and> (\<forall>i. nat window_size div 2 \<le> i \<and> i < length a - nat window_size div 2 \<longrightarrow>
          out ! i = div_int A
                      (sub_elem A
                         (foldl (add_elem A) (zero_elem A) (take (i + nat window_size div 2 + 1) a))
                         (foldl (add_elem A) (zero_elem A) (take (i - nat window_size div 2) a)))
                      window_size)"
proof -
  let ?h = "nat window_size div 2"
  let ?n = "length a"
  let ?cs = "np_cumsum A (np_insert0 A a)"
  let ?B = "map (\<lambda>i. div_int A (foldl (add_elem A) (hd a) (take (2 * i) (tl a))) (int (2 * i + 1))) [0..<?h]"
  let ?M = "map (\<lambda>i. div_int A (sub_elem A (?cs ! (i + (2 * ?h + 1))) (?cs ! i)) (2 * int ?h + 1))
              [0..<?n - 2 * ?h]"
  let ?E = "map (\<lambda>i. div_int A (foldl (add_elem A) (hd (rev a)) (take (2 * i) (tl (rev a))))
                        (int (2 * i + 1))) [0..<?h]"
  let ?out = "?B @ ?M @ rev ?E"
  have w: "window_size = 2 * int ?h + 1" using assms(1,2) by (rule odd_window)
  then have le: "2 * ?h + 1 \<le> ?n" using assms(3) by linarith
  have run: "moving_average A a window_size = Inr ?out"
    by (subst w) (rule moving_average_odd [OF le])
  have lB: "length ?B = ?h" and lM: "length ?M = ?n - 2 * ?h" and lE: "length ?E = ?h"
    by simp_all
  have len: "length ?out = ?n" using le by simp
  have lead: "?out ! i = div_int A (foldl (add_elem A) (hd a) (take (2 * i) (tl a))) (int (2 * i + 1))"
    if "i < ?h" for i
    using that by (simp add: nth_append)
  have trail: "?out ! (?n - 1 - i)
                 = div_int A (foldl (add_elem A) (hd (rev a)) (take (2 * i) (tl (rev a)))) (int (2 * i + 1))"
    if "i < ?h" for i
  proof -
    have idx: "?n - 1 - i = length ?B + (length ?M + (?h - 1 - i))"
      using that le by simp
    have "?out ! (?n - 1 - i) = rev ?E ! (?h - 1 - i)"
      unfolding idx by (simp only: nth_append_length_plus)
    also have "\<dots> = ?E ! i"
      using that by (simp add: rev_nth del: upt_Suc)
    also have "\<dots> = div_int A (foldl (add_elem A) (hd (rev a)) (take (2 * i) (tl (rev a)))) (int (2 * i + 1))"
      using that by simp
    finally show ?thesis .
  qed
  have mid: "?out ! i = div_int A
                      (sub_elem A
                         (foldl (add_elem A) (zero_elem A) (take (i + ?h + 1) a))
                         (foldl (add_elem A) (zero_elem A) (take (i - ?h) a)))
                      window_size"
    if "?h \<le> i" "i < ?n - ?h" for i
  proof -
    have idx: "i = length ?B + (i - ?h)" using that by simp
    have in_M: "i - ?h < ?n - 2 * ?h" using that le by linarith
    have "?out ! i = (?M @ rev ?E) ! (i - ?h)"
      by (subst idx) (simp only: nth_append_length_plus)
    also have "\<dots> = ?M ! (i - ?h)"
      using in_M by (simp add: nth_append)
    also have "\<dots> = div_int A (sub_elem A (?cs ! (i - ?h + (2 * ?h + 1))) (?cs ! (i - ?h)))
                        (2 * int ?h + 1)"
      using in_M by simp
    finally have a1: "?out ! i = div_int A (sub_elem A (?cs ! (i - ?h + (2 * ?h + 1))) (?cs ! (i - ?h)))
                        window_size"
      using w by simp
    have e1: "i - ?h + (2 * ?h + 1) = i + ?h + 1" using that by simp
    have c1: "?cs ! (i - ?h + (2 * ?h + 1))
                = foldl (add_elem A) (zero_elem A) (take (i - ?h + (2 * ?h + 1)) a)"
      using that le by (intro nth_cumulative_sum) linarith
    have c2: "?cs ! (i - ?h) = foldl (add_elem A) (zero_elem A) (take (i - ?h) a)"
      using that le by (intro nth_cumulative_sum) linarith
    from a1 have "?out ! i = div_int A
                      (sub_elem A
                         (foldl (add_elem A) (zero_elem A) (take (i - ?h + (2 * ?h + 1)) a))
                         (foldl (add_elem A) (zero_elem A) (take (i - ?h) a)))
                      window_size"
      by (simp only: c1 c2)
    then show ?thesis by (simp only: e1)
  qed
  from run len lead trail mid show ?thesis by blast
qed

theorem moving_average_edges_odd_witness:
  "odd (5 :: int) \<and> (2 :: int) \<le> 5
   \<and> 5 \<le> int (length [Finite 2, Finite 4, Finite 6, Finite 8, Finite 10, Finite 12, Finite 14])
   \<and> (\<exists>out. moving_average float64_arith
                [Finite 2, Finite 4, Finite 6, Finite 8, Finite 10, Finite 12, Finite 14] 5 = Inr out
         \<and> length out = 7
         \<and> out ! 1 = Finite 4 \<and> out ! 5 = Finite 12 \<and> out ! 3 = Finite 8)"
proof -
  let ?a = "[Finite 2, Finite 4, Finite 6, Finite 8, Finite 10, Finite 12, Finite 14]"
  let ?A = "float64_arith"
  have h1: "odd (5 :: int)" and h2: "(2 :: int) \<le> 5" and h3: "5 \<le> int (length ?a)"
    by simp_all
  from moving_average_edges_odd [OF h1 h2 h3, of ?A]
  obtain out where run: "moving_average ?A ?a 5 = Inr out"
    and len: "length out = length ?a"
    and lead: "\<forall>i < nat 5 div 2.
          out ! i = div_int ?A (foldl (add_elem ?A) (hd ?a) (take (2 * i) (tl ?a))) (int (2 * i + 1))"
    and trail: "\<forall>i < nat 5 div 2.
          out ! (length ?a - 1 - i)
            = div_int ?A (foldl (add_elem ?A) (hd (rev ?a)) (take (2 * i) (tl (rev ?a)))) (int (2 * i + 1))"
    and mid: "\<forall>i. nat 5 div 2 \<le> i \<and> i < length ?a - nat 5 div 2 \<longrightarrow>
          out ! i = div_int ?A
                      (sub_elem ?A
                         (foldl (add_elem ?A) (zero_elem ?A) (take (i + nat 5 div 2 + 1) ?a))
                         (foldl (add_elem ?A) (zero_elem ?A) (take (i - nat 5 div 2) ?a)))
                      5"
    by blast
  have two: "nat 5 div 2 = (2 :: nat)" by simp
  from lead have "out ! 1 = div_int ?A (foldl (add_elem ?A) (hd ?a) (take (2 * 1) (tl ?a))) (int (2 * 1 + 1))"
    unfolding two by (rule allE [where x = 1]) simp
  then have l: "out ! 1 = Finite 4"
    by (simp add: float64_arith_def)
  from trail have "out ! (length ?a - 1 - 1)
      = div_int ?A (foldl (add_elem ?A) (hd (rev ?a)) (take (2 * 1) (tl (rev ?a)))) (int (2 * 1 + 1))"
    unfolding two by (rule allE [where x = 1]) simp
  moreover have "length ?a - 1 - 1 = 5" by simp
  ultimately have "out ! 5
      = div_int ?A (foldl (add_elem ?A) (hd (rev ?a)) (take (2 * 1) (tl (rev ?a)))) (int (2 * 1 + 1))"
    by (simp only:)
  then have t: "out ! 5 = Finite 12"
    by (simp add: float64_arith_def)
  from mid have "out ! 3 = div_int ?A
                      (sub_elem ?A
                         (foldl (add_elem ?A) (zero_elem ?A) (take (3 + nat 5 div 2 + 1) ?a))
                         (foldl (add_elem ?A) (zero_elem ?A) (take (3 - nat 5 div 2) ?a)))
                      5"
    unfolding two by (rule allE [where x = 3]) simp
  then have m: "out ! 3 = Finite 8"
    by (simp add: float64_arith_def fsub_def)
  from len have len7: "length out = 7" by simp
  from run len7 l t m have "\<exists>out. moving_average ?A ?a 5 = Inr out \<and> length out = 7
         \<and> out ! 1 = Finite 4 \<and> out ! 5 = Finite 12 \<and> out ! 3 = Finite 8"
    by blast
  with h1 h2 h3 show ?thesis by blast
qed

section \<open>Properties of compute_advantage\<close>













text \<open>
  C6. When \<open>batch_size\<close> exceeds \<^verbatim>\<open>size()\<close>, \<^verbatim>\<open>sample\<close> raises the ValueError of
  \<^verbatim>\<open>random.sample\<close> before any draw, and the buffer is what it was.
\<close>

theorem sample_too_large_fails:
  assumes "int (fst (size_rb self)) < batch_size"
  shows "sample g self batch_size = (Inl ValueError_sample, g, self)"
  using assms by (simp add: sample_def random_sample_def size_rb_def Let_def)

theorem sample_too_large_fails_witness:
  "int (fst (size_rb \<lparr>buffer = [(0::nat, 0::nat, 0::real, 1::nat, False)], maxlen = 4\<rparr>)) < 2
   \<and> sample (\<lambda>i. i) \<lparr>buffer = [(0::nat, 0::nat, 0::real, 1::nat, False)], maxlen = 4\<rparr> 2
       = (Inl ValueError_sample, (\<lambda>i. i), \<lparr>buffer = [(0::nat, 0::nat, 0::real, 1::nat, False)], maxlen = 4\<rparr>)"
  using sample_too_large_fails [of "\<lparr>buffer = [(0::nat, 0::nat, 0::real, 1::nat, False)], maxlen = 4\<rparr>" 2 "\<lambda>i. i"]
  by (simp add: size_rb_def)

text \<open>
  C9. \<^verbatim>\<open>sample\<close> (whether it succeeds or raises) and \<^verbatim>\<open>size\<close> hand back the buffer
  unchanged: the same stored transitions, the same length, the same bound.
\<close>

theorem sample_size_frame:
  "snd (snd (sample g self batch_size)) = self \<and> snd (size_rb self) = self
   \<and> buffer (snd (snd (sample g self batch_size))) = buffer self
   \<and> length (buffer (snd (size_rb self))) = length (buffer self)"
  by (simp add: sample_def size_rb_def Let_def split: sum.split)

section \<open>Properties of sampling\<close>









section \<open>Properties of the training drivers\<close>


subsection \<open>Counted loops\<close>



subsection \<open>Episodes end when the environment makes progress\<close>



















end
